theory Spec2Isabelle
  imports Complex_Main "HOL-Library.Word" "HOL-Library.Signed_Division" "HOL-Library.AList"
    "HOL-Library.Multiset"
begin

section \<open>Data model of \<^verbatim>\<open>pkg/logql/range_vector.go\<close>\<close>

text \<open>
  Go's \<^verbatim>\<open>int64\<close> is a 64-bit word: \<open>+\<close> and \<open>-\<close> wrap around, and the comparisons of the
  source are the signed ones (\<open>\<le>s\<close>, \<open><s\<close>). The sample values are \<^verbatim>\<open>float64\<close>; the iterator
  only stores and forwards them, so they are a type parameter \<open>'v\<close>.
  \<^verbatim>\<open>labels.Labels\<close> is a slice of name/value pairs, \<^verbatim>\<open>nil\<close> being the empty list.
\<close>

type_synonym int64 = "64 word"
type_synonym labels = "(string \<times> string) list"
type_synonym error = string

text \<open>The sample handed out by the \<^verbatim>\<open>SeriesIterator\<close> (fields as \<^verbatim>\<open>load\<close> reads them).\<close>

record 'v Sample =
  Labels :: string
  TimestampNano :: int64
  Value :: 'v

text \<open>\<^verbatim>\<open>promql.Point\<close>, \<^verbatim>\<open>promql.Series\<close> and \<^verbatim>\<open>promql.Sample\<close>.\<close>

record 'v Point =
  T :: int64
  V :: 'v

record 'v Series =
  Metric :: labels
  Points :: "'v Point list"

record 'v promql_Sample =
  Point :: "'v Point"
  Metric :: labels

text \<open>
  Modelled from the spec: the \<^verbatim>\<open>SeriesIterator\<close> interface has no implementation in the
  source file. Following the Sample Source contract it is a cursor over a finite sequence:
  \<^verbatim>\<open>Peek\<close> looks at the head without consuming, \<^verbatim>\<open>Next\<close> consumes the head and reports whether
  a sample was available. \<open>nexts\<close> counts the invocations of \<^verbatim>\<open>Next\<close>.
\<close>

record 'v SeriesIterator =
  pending :: "'v Sample list"
  nexts :: nat

definition iter_Peek :: "'v SeriesIterator \<Rightarrow> 'v Sample option" where
  "iter_Peek it = (case pending it of [] \<Rightarrow> None | s # _ \<Rightarrow> Some s)"

definition iter_Next :: "'v SeriesIterator \<Rightarrow> bool \<times> 'v SeriesIterator" where
  "iter_Next it =
     (case pending it of
        [] \<Rightarrow> (False, it\<lparr>nexts := Suc (nexts it)\<rparr>)
      | s # ss \<Rightarrow> (True, it\<lparr>pending := ss, nexts := Suc (nexts it)\<rparr>))"

text \<open>
  The iterator struct. The window is a Go map that the code ranges over, so it is an
  association list with distinct keys; the order of the list stands for the order in which
  the runtime happens to visit the keys. \<open>seriesPool\<close> is the package-level pool, threaded
  through the state.
\<close>

record 'v rangeVectorIterator =
  iter :: "'v SeriesIterator"
  selRange :: int64
  step :: int64
  end' :: int64
  current :: int64
  window :: "(string \<times> 'v Series) list"
  metrics :: "string \<rightharpoonup> labels"
  seriesPool :: "'v Series list"

section \<open>The series pool\<close>

text \<open>
  \<^verbatim>\<open>seriesPool\<close> is a \<^verbatim>\<open>sync.Pool\<close>: \<^verbatim>\<open>Get\<close> may hand out any pooled series, or none. The
  model keeps the pooled series in a list and hands out the one put last. Whichever series
  comes out, \<open>getSeries\<close> empties its points and \<open>load\<close> overwrites its \<open>Metric\<close>, so
  the window does not depend on that choice.
\<close>

definition getSeries :: "'v Series list \<Rightarrow> 'v Series \<times> 'v Series list" where
  "getSeries pool =
     (case pool of
        s # rest \<Rightarrow> (s\<lparr>Points := []\<rparr>, rest)
      | [] \<Rightarrow> (\<lparr>Series.Metric = [], Points = []\<rparr>, []))"

definition putSeries :: "'v Series \<Rightarrow> 'v Series list \<Rightarrow> 'v Series list" where
  "putSeries s pool = s # pool"

section \<open>Construction\<close>

text \<open>
  The constructor of the source, with the content of the package-level pool at that moment
  as the extra argument \<open>pool\<close>.
\<close>

definition newRangeVectorIterator ::
  "'v SeriesIterator \<Rightarrow> 'v Series list \<Rightarrow> int64 \<Rightarrow> int64 \<Rightarrow> int64 \<Rightarrow> int64 \<Rightarrow> 'v rangeVectorIterator"
where
  "newRangeVectorIterator it pool selRange0 step0 start end0 =
     (let step1 = (if step0 = 0 then 1 else step0)
      in \<lparr>iter = it, selRange = selRange0, step = step1, end' = end0,
          current = start - step1, window = [], metrics = Map.empty, seriesPool = pool\<rparr>)"

section \<open>Eviction\<close>

text \<open>The inner loop of \<^verbatim>\<open>popBack\<close>: scans the points, tracking \<^verbatim>\<open>lastPoint\<close> and \<^verbatim>\<open>remove\<close>.\<close>

fun popBack_scan :: "int64 \<Rightarrow> 'v Point list \<Rightarrow> nat \<Rightarrow> nat \<times> bool \<Rightarrow> nat \<times> bool" where
  "popBack_scan newStart [] i (lastPoint, remove) = (lastPoint, remove)"
| "popBack_scan newStart (p # ps) i (lastPoint, remove) =
     (if T p \<le>s newStart then popBack_scan newStart ps (Suc i) (i, True)
      else (lastPoint, remove))"

text \<open>
  The body of the outer loop for one key. The range statement only yields keys that are
  present, so the lookup succeeds; the branch for a missing key (a nil dereference in Go) is
  never taken on a window with distinct keys, and leaves the state as it is.
\<close>

definition popBack_fp :: "int64 \<Rightarrow> string \<Rightarrow> 'v rangeVectorIterator \<Rightarrow> 'v rangeVectorIterator" where
  "popBack_fp newStart fp r =
     (case map_of (window r) fp of
        None \<Rightarrow> r
      | Some s \<Rightarrow>
          (let (lastPoint, remove) = popBack_scan newStart (Points s) 0 (0, False);
               s1 = (if remove then s\<lparr>Points := drop (lastPoint + 1) (Points s)\<rparr> else s);
               r1 = r\<lparr>window := AList.update fp s1 (window r)\<rparr>
           in if length (Points s1) = 0
              then r1\<lparr>window := AList.delete fp (window r1),
                      seriesPool := putSeries s1 (seriesPool r1)\<rparr>
              else r1))"

definition popBack :: "int64 \<Rightarrow> 'v rangeVectorIterator \<Rightarrow> 'v rangeVectorIterator" where
  "popBack newStart r = fold (popBack_fp newStart) (map fst (window r)) r"

section \<open>Ingestion\<close>

text \<open>
  \<^verbatim>\<open>parser.ParseMetric\<close> belongs to another package; it is the parameter \<open>parse\<close>, with
  \<open>Inl\<close> for the error. The loop of \<^verbatim>\<open>load\<close> need not terminate, so not returning is the
  value \<open>None\<close>.
\<close>

datatype 'a loop = Return 'a | Continue 'a

definition load_append :: "'v Sample \<Rightarrow> 'v Series \<Rightarrow> 'v rangeVectorIterator \<Rightarrow> 'v rangeVectorIterator"
where
  "load_append sample series r =
     r\<lparr>window := AList.update (Labels sample)
                   (series\<lparr>Points := Points series
                              @ [\<lparr>T = TimestampNano sample, V = Value sample\<rparr>]\<rparr>)
                   (window r),
       iter := snd (iter_Next (iter r))\<rparr>"

definition load_fresh :: "'v Sample \<Rightarrow> labels \<Rightarrow> 'v rangeVectorIterator \<Rightarrow> 'v rangeVectorIterator"
where
  "load_fresh sample metric r =
     (let (series, pool) = getSeries (seriesPool r)
      in load_append sample (series\<lparr>Series.Metric := metric\<rparr>) (r\<lparr>seriesPool := pool\<rparr>))"

text \<open>
  One pass through the body of the \<^verbatim>\<open>for\<close> loop: \<open>Return\<close> where the loop ends (no sample
  left, or the \<^verbatim>\<open>return\<close> on a sample beyond \<open>end\<close>), \<open>Continue\<close> where it goes round again.
  \<open>load_append\<close> is the tail of the body (append the point, then \<^verbatim>\<open>iter.Next()\<close>);
  \<open>load_fresh\<close> takes a series from the pool first and stores it under the fingerprint.
  On a parse error the source has a bare \<^verbatim>\<open>continue\<close>: the state is left as it is.
\<close>

definition load_body ::
  "(string \<Rightarrow> error + labels) \<Rightarrow> int64 \<Rightarrow> int64 \<Rightarrow> 'v rangeVectorIterator
     \<Rightarrow> 'v rangeVectorIterator loop"
where
  "load_body parse start end0 r =
     (case iter_Peek (iter r) of
        None \<Rightarrow> Return r
      | Some sample \<Rightarrow>
          if end0 <s TimestampNano sample then Return r
          else if TimestampNano sample \<le>s start
          then Continue (r\<lparr>iter := snd (iter_Next (iter r))\<rparr>)
          else
            (case map_of (window r) (Labels sample) of
               Some series \<Rightarrow> Continue (load_append sample series r)
             | None \<Rightarrow>
                 (case metrics r (Labels sample) of
                    Some metric \<Rightarrow> Continue (load_fresh sample metric r)
                  | None \<Rightarrow>
                      (case parse (Labels sample) of
                         Inl err \<Rightarrow> Continue r
                       | Inr metric \<Rightarrow>
                           Continue (load_fresh sample metric
                             (r\<lparr>metrics := (metrics r)(Labels sample \<mapsto> metric)\<rparr>))))))"

partial_function (option) load ::
  "(string \<Rightarrow> error + labels) \<Rightarrow> int64 \<Rightarrow> int64 \<Rightarrow> 'v rangeVectorIterator
     \<Rightarrow> 'v rangeVectorIterator option"
where
  "load parse start end0 r =
     (case load_body parse start end0 r of
        Return r' \<Rightarrow> Some r'
      | Continue r' \<Rightarrow> load parse start end0 r')"

declare load.simps [code]

section \<open>Advancing and output\<close>

definition Next ::
  "(string \<Rightarrow> error + labels) \<Rightarrow> 'v rangeVectorIterator \<Rightarrow> (bool \<times> 'v rangeVectorIterator) option"
where
  "Next parse r =
     (let r1 = r\<lparr>current := current r + step r\<rparr>
      in if end' r1 <s current r1 then Some (False, r1)
         else
           (let rangeEnd = current r1;
                rangeStart = current r1 - selRange r1
            in case load parse rangeStart rangeEnd (popBack rangeStart r1) of
                 None \<Rightarrow> None
               | Some r2 \<Rightarrow> Some (True, r2)))"

text \<open>\<^verbatim>\<open>r.current / 1e+6\<close> is Go's integer division, which truncates towards zero.\<close>

definition int64_quo :: "int64 \<Rightarrow> int64 \<Rightarrow> int64" where
  "int64_quo a b = word_of_int (sint a sdiv sint b)"

definition At ::
  "('v Point list \<Rightarrow> 'v) \<Rightarrow> 'v rangeVectorIterator
     \<Rightarrow> 'v rangeVectorIterator \<times> int64 \<times> 'v promql_Sample list"
where
  "At aggregator r =
     (let ts = int64_quo (current r) 1000000;
          result = fold (\<lambda>(fp, series) result.
                     result @ [\<lparr>Point = \<lparr>T = ts, V = aggregator (Points series)\<rparr>,
                                promql_Sample.Metric = Series.Metric series\<rparr>])
                     (window r) []
      in (r, ts, result))"


section \<open>Auxiliary notions for the proofs\<close>

text \<open>What eviction does to one series, to the whole window, and which series it empties.\<close>

definition evict :: "int64 \<Rightarrow> 'v Series \<Rightarrow> 'v Series" where
  "evict ns s = s\<lparr>Points := dropWhile (\<lambda>p. T p \<le>s ns) (Points s)\<rparr>"

definition evict_all :: "int64 \<Rightarrow> (string \<times> 'v Series) list \<Rightarrow> (string \<times> 'v Series) list" where
  "evict_all ns w = filter (\<lambda>(fp, s). Points s \<noteq> []) (map (\<lambda>(fp, s). (fp, evict ns s)) w)"

definition points_of :: "(string \<times> 'v Series) list \<Rightarrow> string \<Rightarrow> 'v Point list" where
  "points_of w fp = (case map_of w fp of None \<Rightarrow> [] | Some s \<Rightarrow> Points s)"

definition to_point :: "'v Sample \<Rightarrow> 'v Point" where
  "to_point s = \<lparr>T = TimestampNano s, V = Value s\<rparr>"

definition emptied :: "int64 \<Rightarrow> (string \<times> 'v Series) list \<Rightarrow> 'v Series list" where
  "emptied ns w = map snd (filter (\<lambda>(fp, s). Points s = []) (map (\<lambda>(fp, s). (fp, evict ns s)) w))"

text \<open>A window with two series, for the eviction example.\<close>

definition evict_example :: "real rangeVectorIterator" where
  "evict_example =
     \<lparr>iter = \<lparr>pending = [], nexts = 0\<rparr>, selRange = 5, step = 5, end' = 10, current = 0,
      window = [(''A'', \<lparr>Series.Metric = [], Points = [\<lparr>T = 0, V = 1\<rparr>, \<lparr>T = 3, V = 2\<rparr>]\<rparr>),
                (''B'', \<lparr>Series.Metric = [], Points = [\<lparr>T = 0, V = 7\<rparr>]\<rparr>)],
      metrics = Map.empty, seriesPool = []\<rparr>"

text \<open>
  An instance of the parameter \<open>parse\<close> for the examples: the fingerprint \<open>A\<close> resolves to
  a label set, every other string is malformed.
\<close>

definition parse_example :: "string \<Rightarrow> error + labels" where
  "parse_example s = (if s = ''A'' then Inr [(''__name__'', ''A'')] else Inl ''parse error'')"

text \<open>A source whose first sample lies in the window \<open>(0, 10]\<close> and does not parse.\<close>

definition malformed_example :: "real rangeVectorIterator" where
  "malformed_example =
     \<lparr>iter = \<lparr>pending = [\<lparr>Labels = ''{'', TimestampNano = 5, Value = 1\<rparr>,
                          \<lparr>Labels = ''A'', TimestampNano = 6, Value = 2\<rparr>], nexts = 0\<rparr>,
      selRange = 10, step = 10, end' = 10, current = 10,
      window = [], metrics = Map.empty, seriesPool = []\<rparr>"


text \<open>The caller's loop: \<open>n\<close> calls of \<^verbatim>\<open>Next\<close> in a row, with the values they returned.\<close>

fun Nexts ::
  "(string \<Rightarrow> error + labels) \<Rightarrow> nat \<Rightarrow> 'v rangeVectorIterator
     \<Rightarrow> (bool list \<times> 'v rangeVectorIterator) option"
where
  "Nexts parse 0 r = Some ([], r)"
| "Nexts parse (Suc n) r =
     (case Next parse r of
        None \<Rightarrow> None
      | Some (b, r1) \<Rightarrow>
          (case Nexts parse n r1 of
             None \<Rightarrow> None
           | Some (bs, r2) \<Rightarrow> Some (b # bs, r2)))"

text \<open>
  The invariant of a run: the step is positive and \<open>end + step\<close> does not overflow; the
  window is a map; the source and every series are in ascending timestamp order; no stored
  point is later than a pending sample or than \<open>current\<close>; and \<open>current\<close> has not passed
  \<open>end\<close> once the window holds something.
\<close>

definition run_inv :: "'v rangeVectorIterator \<Rightarrow> bool" where
  "run_inv r \<longleftrightarrow>
     1 \<le>s step r \<and> sint (end' r) + sint (step r) < 2 ^ 63
     \<and> distinct (map fst (window r))
     \<and> sorted_wrt (\<lambda>a b. TimestampNano a \<le>s TimestampNano b) (pending (iter r))
     \<and> (\<forall>fp. sorted_wrt (\<lambda>p q. T p \<le>s T q) (points_of (window r) fp))
     \<and> (\<forall>fp. \<forall>p \<in> set (points_of (window r) fp).
           (\<forall>x \<in> set (pending (iter r)). T p \<le>s TimestampNano x) \<and> T p \<le>s current r)
     \<and> (window r = [] \<or> current r \<le>s end' r)"

text \<open>
  Modelled from the spec: the aggregator \<open>sum\<close> of the end-to-end scenario is supplied by the
  caller and is not in the source file; it adds up the values of the points. The values of
  the scenario are small integers, so the sum is the same in \<^verbatim>\<open>float64\<close>.
\<close>

definition sum_aggregator :: "real Point list \<Rightarrow> real" where
  "sum_aggregator ps = fold (\<lambda>p acc. acc + V p) ps 0"

text \<open>The end-to-end scenario: selector 5, step 5, start 0, end 10, three samples of \<open>A\<close>.\<close>

definition scenario :: "real rangeVectorIterator" where
  "scenario =
     newRangeVectorIterator
       \<lparr>pending = [\<lparr>Labels = ''A'', TimestampNano = 0, Value = 1\<rparr>,
                   \<lparr>Labels = ''A'', TimestampNano = 3, Value = 2\<rparr>,
                   \<lparr>Labels = ''A'', TimestampNano = 11, Value = 3\<rparr>], nexts = 0\<rparr>
       [] 5 5 0 10"

text \<open>An iterator configured with step \<open>-1\<close>.\<close>

definition negative_step_example :: "real rangeVectorIterator" where
  "negative_step_example = newRangeVectorIterator \<lparr>pending = [], nexts = 0\<rparr> [] 5 (- 1) 0 10"

text \<open>An iterator with step \<open>2 ^ 62\<close>, start 0 and end 0, over an empty source.\<close>

definition wrap_example :: "real rangeVectorIterator" where
  "wrap_example =
     newRangeVectorIterator \<lparr>pending = [], nexts = 0\<rparr> [] 0 4611686018427387904 0 0"

text \<open>An iterator with step 1 whose start and end are the largest \<^verbatim>\<open>int64\<close>.\<close>

definition overflow_example :: "real rangeVectorIterator" where
  "overflow_example =
     newRangeVectorIterator
       \<lparr>pending = [\<lparr>Labels = ''A'', TimestampNano = 9223372036854775807, Value = 1\<rparr>],
        nexts = 0\<rparr>
       [] 10 1 9223372036854775807 9223372036854775807"

text \<open>A window with two series at the position \<open>-1500000\<close> nanoseconds.\<close>

definition at_example :: "real rangeVectorIterator" where
  "at_example = evict_example\<lparr>current := - 1500000\<rparr>"

text \<open>The same window visited in the opposite order.\<close>

definition at_example_reordered :: "real rangeVectorIterator" where
  "at_example_reordered = at_example\<lparr>window := rev (window at_example)\<rparr>"

text \<open>The state of the scenario after two calls of \<^verbatim>\<open>Next\<close>.\<close>

definition scenario_second :: "real rangeVectorIterator" where
  "scenario_second =
     \<lparr>iter = \<lparr>pending = [\<lparr>Labels = ''A'', TimestampNano = 11, Value = 3\<rparr>], nexts = 2\<rparr>,
      selRange = 5, step = 5, end' = 10, current = 5,
      window = [(''A'', \<lparr>Series.Metric = [(''__name__'', ''A'')],
                        Points = [\<lparr>T = 3, V = 2\<rparr>]\<rparr>)],
      metrics = [''A'' \<mapsto> [(''__name__'', ''A'')]], seriesPool = []\<rparr>"

section \<open>Eviction: properties\<close>

lemma popBack_scan_eq:
  "popBack_scan ns ps i (lp, rm) =
     (if takeWhile (\<lambda>p. T p \<le>s ns) ps = [] then (lp, rm)
      else (i + length (takeWhile (\<lambda>p. T p \<le>s ns) ps) - 1, True))"
  by (induction ps arbitrary: i lp rm) auto

lemma popBack_slice:
  "(case popBack_scan ns ps 0 (0, False) of
      (lastPoint, remove) \<Rightarrow> if remove then drop (lastPoint + 1) ps else ps)
   = dropWhile (\<lambda>p. T p \<le>s ns) ps"
proof (cases "takeWhile (\<lambda>p. T p \<le>s ns) ps = []")
  case True
  then have "dropWhile (\<lambda>p. T p \<le>s ns) ps = ps"
    by (metis append_Nil takeWhile_dropWhile_id)
  with True show ?thesis by (simp add: popBack_scan_eq)
next
  case False
  then have "0 < length (takeWhile (\<lambda>p. T p \<le>s ns) ps)" by simp
  with False show ?thesis by (simp add: popBack_scan_eq dropWhile_eq_drop)
qed

lemma popBack_fp_eq:
  assumes "map_of (window r) fp = Some s"
  shows "popBack_fp ns fp r =
     (if Points (evict ns s) = []
      then r\<lparr>window := AList.delete fp (window r), seriesPool := evict ns s # seriesPool r\<rparr>
      else r\<lparr>window := AList.update fp (evict ns s) (window r)\<rparr>)"
proof -
  obtain lp rm where scan: "popBack_scan ns (Points s) 0 (0, False) = (lp, rm)"
    by (cases "popBack_scan ns (Points s) 0 (0, False)") blast
  have "(if rm then drop (lp + 1) (Points s) else Points s)
          = dropWhile (\<lambda>p. T p \<le>s ns) (Points s)"
    using popBack_slice [where ns=ns and ps="Points s"] by (simp only: scan prod.case)
  then have s1: "(if rm then s\<lparr>Points := drop (lp + 1) (Points s)\<rparr> else s) = evict ns s"
    by (cases rm) (simp_all add: evict_def)
  show ?thesis
    unfolding popBack_fp_def
    by (simp only: assms option.case scan prod.case Let_def s1)
       (simp add: putSeries_def delete_update_same)
qed


lemma map_of_mid:
  "k \<notin> fst ` set pre \<Longrightarrow> map_of (pre @ (k, v) # rest) k = Some v"
  by (induction pre) auto

lemma update_mid:
  "k \<notin> fst ` set pre \<Longrightarrow> AList.update k v' (pre @ (k, v) # rest) = pre @ (k, v') # rest"
  by (induction pre) auto

lemma delete_mid:
  "k \<notin> fst ` set pre \<Longrightarrow> k \<notin> fst ` set rest \<Longrightarrow>
   AList.delete k (pre @ (k, v) # rest) = pre @ rest"
  by (induction pre) (auto simp: delete_id)

lemma popBack_fold:
  "distinct (map fst (pre @ todo)) \<Longrightarrow> window r = pre @ todo \<Longrightarrow>
   fold (popBack_fp ns) (map fst todo) r =
     r\<lparr>window := pre @ evict_all ns todo,
        seriesPool := rev (emptied ns todo) @ seriesPool r\<rparr>"
proof (induction todo arbitrary: pre r)
  case Nil
  then show ?case by (simp add: evict_all_def emptied_def)
next
  case (Cons e todo)
  obtain fp s where e: "e = (fp, s)" by (cases e)
  from Cons.prems have npre: "fp \<notin> fst ` set pre" and nrest: "fp \<notin> fst ` set todo"
    by (auto simp: e)
  have look: "map_of (window r) fp = Some s"
    using map_of_mid [OF npre, of s todo] by (simp only: Cons.prems(2) e)
  show ?case
  proof (cases "Points (evict ns s) = []")
    case True
    let ?r1 = "r\<lparr>window := pre @ todo, seriesPool := evict ns s # seriesPool r\<rparr>"
    have step: "popBack_fp ns fp r = ?r1"
      using True look npre nrest Cons.prems(2)
      by (simp add: popBack_fp_eq e delete_mid)
    have "distinct (map fst (pre @ todo))" using Cons.prems(1) by (simp add: e)
    from Cons.IH [OF this, of ?r1] True
    show ?thesis by (simp add: e step evict_all_def emptied_def)
  next
    case False
    let ?r1 = "r\<lparr>window := (pre @ [(fp, evict ns s)]) @ todo\<rparr>"
    have step: "popBack_fp ns fp r = ?r1"
      using False look npre Cons.prems(2)
      by (simp add: popBack_fp_eq e update_mid)
    have "distinct (map fst ((pre @ [(fp, evict ns s)]) @ todo))"
      using Cons.prems(1) by (auto simp: e)
    from Cons.IH [OF this, of ?r1] False
    show ?thesis by (simp add: e step evict_all_def emptied_def)
  qed
qed

lemma popBack_eq:
  "distinct (map fst (window r)) \<Longrightarrow>
   popBack ns r = r\<lparr>window := evict_all ns (window r),
                    seriesPool := rev (emptied ns (window r)) @ seriesPool r\<rparr>"
  unfolding popBack_def using popBack_fold [of "[]" "window r" r ns] by simp


lemma map_of_evict_all:
  "distinct (map fst w) \<Longrightarrow>
   map_of (evict_all ns w) fp =
     (case map_of w fp of None \<Rightarrow> None
      | Some s \<Rightarrow> if Points (evict ns s) = [] then None else Some (evict ns s))"
proof (induction w)
  case Nil
  then show ?case by (simp add: evict_all_def)
next
  case (Cons e w)
  obtain k s where e: "e = (k, s)" by (cases e)
  from Cons.prems have k: "k \<notin> fst ` set w" and d: "distinct (map fst w)"
    by (auto simp: e)
  have "fst ` set (evict_all ns w) \<subseteq> fst ` set w"
    by (force simp: evict_all_def)
  with k have "map_of (evict_all ns w) k = None"
    by (metis map_of_eq_None_iff subsetD)
  with Cons.IH [OF d] show ?case
    by (auto simp: e evict_all_def split: option.splits)
qed

lemma dropWhile_sorted_above:
  "sorted_wrt (\<lambda>p q. T p \<le>s T q) ps \<Longrightarrow>
   p \<in> set (dropWhile (\<lambda>p. T p \<le>s ns) ps) \<Longrightarrow> ns <s T p"
  by (induction ps) (auto simp: word_sle_eq word_sless_alt split: if_splits)

lemma evict_in_emptied:
  "(fp, s) \<in> set w \<Longrightarrow> Points (evict ns s) = [] \<Longrightarrow> evict ns s \<in> set (emptied ns w)"
  by (force simp: emptied_def)

text \<open>
  Claim C3. Let the window store be a map (distinct keys) whose series hold their points in
  ascending timestamp order. After \<open>popBack newStart\<close>, the points of every series split into
  a removed prefix, all with \<open>T \<le> newStart\<close>, and a kept suffix, all with \<open>T > newStart\<close>,
  in their old order. A series whose kept part is empty is deleted from the window and put
  into the pool by the same call; any other series stays under its key with the kept points;
  no key is added; so every point left in the window has \<open>T > newStart\<close>.
\<close>

theorem popBack_evicts:
  assumes "distinct (map fst (window r))"
    and "\<forall>(fp, s) \<in> set (window r). sorted_wrt (\<lambda>p q. T p \<le>s T q) (Points s)"
  shows "(\<forall>fp s. map_of (window r) fp = Some s \<longrightarrow>
            (\<exists>removed kept. Points s = removed @ kept
               \<and> (\<forall>p \<in> set removed. T p \<le>s newStart)
               \<and> (\<forall>p \<in> set kept. newStart <s T p)
               \<and> (if kept = []
                  then map_of (window (popBack newStart r)) fp = None
                     \<and> s\<lparr>Points := []\<rparr> \<in> set (seriesPool (popBack newStart r))
                  else map_of (window (popBack newStart r)) fp = Some (s\<lparr>Points := kept\<rparr>))))
       \<and> (\<forall>fp. map_of (window r) fp = None \<longrightarrow> map_of (window (popBack newStart r)) fp = None)
       \<and> (\<forall>(fp, s) \<in> set (window (popBack newStart r)).
             Points s \<noteq> [] \<and> (\<forall>p \<in> set (Points s). newStart <s T p))"
proof (intro conjI allI impI)
  fix fp s
  assume look: "map_of (window r) fp = Some s"
  then have mem: "(fp, s) \<in> set (window r)" by (rule map_of_SomeD)
  let ?P = "\<lambda>p. T p \<le>s newStart"
  have sorted: "sorted_wrt (\<lambda>p q. T p \<le>s T q) (Points s)"
    using assms(2) mem by blast
  have a: "Points s = takeWhile ?P (Points s) @ dropWhile ?P (Points s)" by simp
  have b: "\<forall>p \<in> set (takeWhile ?P (Points s)). T p \<le>s newStart"
    by (auto dest: set_takeWhileD)
  have c: "\<forall>p \<in> set (dropWhile ?P (Points s)). newStart <s T p"
    using dropWhile_sorted_above [OF sorted] by blast
  have d: "if dropWhile ?P (Points s) = []
           then map_of (window (popBack newStart r)) fp = None
              \<and> s\<lparr>Points := []\<rparr> \<in> set (seriesPool (popBack newStart r))
           else map_of (window (popBack newStart r)) fp = Some (s\<lparr>Points := dropWhile ?P (Points s)\<rparr>)"
  proof (cases "dropWhile ?P (Points s) = []")
    case True
    then have e: "evict newStart s = s\<lparr>Points := []\<rparr>" "Points (evict newStart s) = []"
      by (simp_all add: evict_def)
    have gone: "map_of (window (popBack newStart r)) fp = None"
      using look e(2) by (simp add: popBack_eq [OF assms(1)] map_of_evict_all [OF assms(1)])
    have "evict newStart s \<in> set (seriesPool (popBack newStart r))"
      using evict_in_emptied [OF mem e(2)] by (simp add: popBack_eq [OF assms(1)])
    then have "s\<lparr>Points := []\<rparr> \<in> set (seriesPool (popBack newStart r))"
      by (simp only: e(1))
    with gone True show ?thesis by (simp only: if_True simp_thms)
  next
    case False
    then have "Points (evict newStart s) \<noteq> []" by (simp add: evict_def)
    with look have "map_of (window (popBack newStart r)) fp = Some (evict newStart s)"
      by (simp add: popBack_eq [OF assms(1)] map_of_evict_all [OF assms(1)])
    with False show ?thesis by (simp only: if_False evict_def)
  qed
  from a b c d show "\<exists>removed kept. Points s = removed @ kept
               \<and> (\<forall>p \<in> set removed. T p \<le>s newStart)
               \<and> (\<forall>p \<in> set kept. newStart <s T p)
               \<and> (if kept = []
                  then map_of (window (popBack newStart r)) fp = None
                     \<and> s\<lparr>Points := []\<rparr> \<in> set (seriesPool (popBack newStart r))
                  else map_of (window (popBack newStart r)) fp = Some (s\<lparr>Points := kept\<rparr>))"
    by blast
next
  fix fp
  assume "map_of (window r) fp = None"
  then show "map_of (window (popBack newStart r)) fp = None"
    by (simp add: popBack_eq [OF assms(1)] map_of_evict_all [OF assms(1)])
next
  show "\<forall>(fp, s) \<in> set (window (popBack newStart r)).
             Points s \<noteq> [] \<and> (\<forall>p \<in> set (Points s). newStart <s T p)"
    using assms(2) dropWhile_sorted_above
    by (fastforce simp: popBack_eq [OF assms(1)] evict_all_def evict_def)
qed

theorem popBack_evicts_witness:
  "distinct (map fst (window evict_example))
   \<and> list_all (\<lambda>e. sorted_wrt (\<lambda>p q. T p \<le>s T q) (Points (snd e))) (window evict_example)
   \<and> list_all (\<lambda>e. Points (snd e) \<noteq> [] \<and> list_all (\<lambda>p. 0 <s T p) (Points (snd e)))
        (window (popBack 0 evict_example))
   \<and> window (popBack 0 evict_example)
       = [(''A'', \<lparr>Series.Metric = [], Points = [\<lparr>T = 3, V = 2\<rparr>]\<rparr>)]
   \<and> seriesPool (popBack 0 evict_example) = [\<lparr>Series.Metric = [], Points = []\<rparr>]"
proof -
  have d: "distinct (map fst (window evict_example))"
    by (simp add: evict_example_def)
  have s: "\<forall>(fp, s) \<in> set (window evict_example). sorted_wrt (\<lambda>p q. T p \<le>s T q) (Points s)"
    by (simp add: evict_example_def word_sle_eq)
  have w: "window (popBack 0 evict_example)
       = [(''A'', \<lparr>Series.Metric = [], Points = [\<lparr>T = 3, V = 2\<rparr>]\<rparr>)]"
    and p: "seriesPool (popBack 0 evict_example) = [\<lparr>Series.Metric = [], Points = []\<rparr>]"
    by (simp_all add: evict_example_def popBack_def popBack_fp_def putSeries_def
          word_sle_eq word_sless_alt)
  from popBack_evicts [OF d s, of 0]
  have "\<forall>(fp, s) \<in> set (window (popBack 0 evict_example)).
          Points s \<noteq> [] \<and> (\<forall>p \<in> set (Points s). 0 <s T p)"
    by blast
  then have "list_all (\<lambda>e. Points (snd e) \<noteq> [] \<and> list_all (\<lambda>p. 0 <s T p) (Points (snd e)))
        (window (popBack 0 evict_example))"
    by (simp add: list_all_iff split_def)
  with d s w p show ?thesis by (simp add: list_all_iff split_def word_sle_eq)
qed

section \<open>Ingestion: properties\<close>

lemma load_stuck:
  assumes "load_body parse start end0 r = Continue r"
  shows "load parse start end0 r = None"
proof (rule ccontr)
  assume "load parse start end0 r \<noteq> None"
  then obtain y where y: "load parse start end0 r = Some y" by blast
  have "load_body parse start end0 r \<noteq> Continue r"
    by (rule load.raw_induct
          [where P = "\<lambda>parse start end0 r y. load_body parse start end0 r \<noteq> Continue r", OF _ y])
       (auto split: loop.splits)
  with assms show False by blast
qed

lemma load_body_Return:
  assumes "load_body parse start end0 r = Return r1"
  shows "r1 = r \<and> (pending (iter r) = [] \<or> end0 <s TimestampNano (hd (pending (iter r))))"
  using assms unfolding load_body_def iter_Peek_def
  by (auto split: list.splits option.splits sum.splits if_splits)

lemma points_of_update:
  "points_of (AList.update k s w) fp = (if fp = k then Points s else points_of w fp)"
  by (simp add: points_of_def update_conv')

lemma points_of_None: "map_of w fp = None \<Longrightarrow> points_of w fp = []"
  by (simp add: points_of_def)

lemma points_of_Some: "map_of w fp = Some s \<Longrightarrow> points_of w fp = Points s"
  by (simp add: points_of_def)

lemma distinct_update_iff:
  "distinct (map fst (AList.update k v al)) = distinct (map fst al)"
  by (induction al) (auto simp: dom_update)

lemma load_body_Continue:
  assumes "load_body parse start end0 r = Continue r1" and "r1 \<noteq> r"
  shows "\<exists>s rest. pending (iter r) = s # rest \<and> TimestampNano s \<le>s end0
           \<and> pending (iter r1) = rest \<and> nexts (iter r1) = Suc (nexts (iter r))
           \<and> (\<forall>fp. points_of (window r1) fp = points_of (window r) fp
                  @ (if Labels s = fp \<and> start <s TimestampNano s then [to_point s] else []))
           \<and> (distinct (map fst (window r1)) = distinct (map fst (window r)))
           \<and> current r1 = current r \<and> step r1 = step r \<and> selRange r1 = selRange r
           \<and> end' r1 = end' r"
  using assms unfolding load_body_def iter_Peek_def
  by (auto simp: iter_Next_def load_append_def load_fresh_def getSeries_def points_of_update
        distinct_update_iff to_point_def word_sle_eq word_sless_alt points_of_None points_of_Some
      split: list.splits option.splits sum.splits if_splits prod.splits)


lemma load_Some:
  "load parse start end0 r = Some r' \<Longrightarrow>
     pending (iter r') = dropWhile (\<lambda>s. TimestampNano s \<le>s end0) (pending (iter r))
   \<and> nexts (iter r') = nexts (iter r)
        + length (takeWhile (\<lambda>s. TimestampNano s \<le>s end0) (pending (iter r)))
   \<and> (\<forall>fp. points_of (window r') fp = points_of (window r) fp
          @ map to_point (filter (\<lambda>s. Labels s = fp \<and> start <s TimestampNano s)
              (takeWhile (\<lambda>s. TimestampNano s \<le>s end0) (pending (iter r)))))
   \<and> (distinct (map fst (window r')) = distinct (map fst (window r)))
   \<and> current r' = current r \<and> step r' = step r \<and> selRange r' = selRange r
   \<and> end' r' = end' r"
proof (induction "pending (iter r)" arbitrary: r)
  case Nil
  have "load_body parse start end0 r = Return r"
    using Nil.hyps by (simp add: load_body_def iter_Peek_def)
  with Nil.prems have "r' = r" by (simp add: load.simps)
  with Nil.hyps [symmetric] show ?case by simp
next
  case (Cons s rest)
  show ?case
  proof (cases "load_body parse start end0 r")
    case (Return r1)
    from load_body_Return [OF Return] Cons.hyps(2) [symmetric]
    have "r1 = r" and "end0 <s TimestampNano s" by auto
    moreover from Return Cons.prems have "r' = r1" by (simp add: load.simps)
    ultimately show ?thesis
      using Cons.hyps(2) [symmetric] by (simp add: word_sle_eq word_sless_alt)
  next
    case (Continue r1)
    show ?thesis
    proof (cases "r1 = r")
      case True
      with Continue load_stuck have "load parse start end0 r = None" by blast
      with Cons.prems show ?thesis by simp
    next
      case False
      from Continue Cons.prems have l1: "load parse start end0 r1 = Some r'"
        by (simp add: load.simps)
      from load_body_Continue [OF Continue False] Cons.hyps(2) [symmetric]
      have st: "TimestampNano s \<le>s end0" "pending (iter r1) = rest"
        "nexts (iter r1) = Suc (nexts (iter r))"
        "\<forall>fp. points_of (window r1) fp = points_of (window r) fp
                  @ (if Labels s = fp \<and> start <s TimestampNano s then [to_point s] else [])"
        "distinct (map fst (window r1)) = distinct (map fst (window r))"
        "current r1 = current r" "step r1 = step r" "selRange r1 = selRange r"
        "end' r1 = end' r"
        by auto
      from Cons.hyps(1) [OF st(2) [symmetric] l1] st Cons.hyps(2) [symmetric]
      show ?thesis by simp
    qed
  qed
qed


lemma load_body_stuck_iff:
  "load_body parse start end0 r = Continue r \<longleftrightarrow>
     (\<exists>s rest e. pending (iter r) = s # rest \<and> TimestampNano s \<le>s end0
        \<and> start <s TimestampNano s \<and> map_of (window r) (Labels s) = None
        \<and> metrics r (Labels s) = None \<and> parse (Labels s) = Inl e)"
proof -
  have neq: "r\<lparr>iter := snd (iter_Next (iter r))\<rparr> \<noteq> r" "load_append s x r \<noteq> r"
    "load_fresh s m r \<noteq> r" "load_fresh s m (r\<lparr>metrics := mm\<rparr>) \<noteq> r" for s x m mm
  proof -
    have n: "nexts (snd (iter_Next (iter r))) = Suc (nexts (iter r))"
      by (simp add: iter_Next_def split: list.splits)
    have "iter (r\<lparr>iter := snd (iter_Next (iter r))\<rparr>) \<noteq> iter r"
      "iter (load_append s x r) \<noteq> iter r" "iter (load_fresh s m r) \<noteq> iter r"
      "iter (load_fresh s m (r\<lparr>metrics := mm\<rparr>)) \<noteq> iter r"
      using n by (auto simp: load_append_def load_fresh_def split: prod.splits)
    then show "r\<lparr>iter := snd (iter_Next (iter r))\<rparr> \<noteq> r" "load_append s x r \<noteq> r"
      "load_fresh s m r \<noteq> r" "load_fresh s m (r\<lparr>metrics := mm\<rparr>) \<noteq> r"
      by metis+
  qed
  show ?thesis
    unfolding load_body_def iter_Peek_def
    by (auto simp: neq word_sle_eq word_sless_alt
        split: list.splits option.splits sum.splits if_splits)
qed


text \<open>
  Claim C1 (the code does not do this). When the peeked sample lies inside the window, its
  fingerprint is neither in the window store nor in the labels cache, and parsing it fails,
  the body of the loop leaves the state as it is: the sample is not consumed, the next
  \<^verbatim>\<open>Peek\<close> returns it again, and \<open>load\<close> never returns.
\<close>

theorem load_malformed_never_returns:
  assumes "pending (iter r) = s # rest"
    and "start <s TimestampNano s" and "TimestampNano s \<le>s end0"
    and "map_of (window r) (Labels s) = None" and "metrics r (Labels s) = None"
    and "parse (Labels s) = Inl e"
  shows "load_body parse start end0 r = Continue r \<and> load parse start end0 r = None"
proof -
  have "load_body parse start end0 r = Continue r"
    using assms by (simp only: load_body_stuck_iff) blast
  then show ?thesis by (simp add: load_stuck)
qed

theorem load_malformed_never_returns_witness:
  "pending (iter malformed_example)
     = [\<lparr>Labels = ''{'', TimestampNano = 5, Value = 1\<rparr>,
        \<lparr>Labels = ''A'', TimestampNano = 6, Value = 2\<rparr>]
   \<and> (0 :: int64) <s 5 \<and> (5 :: int64) \<le>s 10
   \<and> map_of (window malformed_example) ''{'' = None
   \<and> metrics malformed_example ''{'' = None
   \<and> parse_example ''{'' = Inl ''parse error''
   \<and> load parse_example 0 10 malformed_example = None"
proof -
  have a: "pending (iter malformed_example)
     = \<lparr>Labels = ''{'', TimestampNano = 5, Value = 1\<rparr>
       # [\<lparr>Labels = ''A'', TimestampNano = 6, Value = (2::real)\<rparr>]"
    by (simp add: malformed_example_def)
  have b: "(0 :: int64) <s TimestampNano \<lparr>Labels = ''{'', TimestampNano = 5, Value = 1::real\<rparr>"
    and c: "TimestampNano \<lparr>Labels = ''{'', TimestampNano = 5, Value = 1::real\<rparr> \<le>s (10 :: int64)"
    by (simp_all add: word_sle_eq word_sless_alt)
  have d: "map_of (window malformed_example)
            (Labels \<lparr>Labels = ''{'', TimestampNano = 5, Value = 1::real\<rparr>) = None"
    and e: "metrics malformed_example
            (Labels \<lparr>Labels = ''{'', TimestampNano = 5, Value = 1::real\<rparr>) = None"
    and f: "parse_example (Labels \<lparr>Labels = ''{'', TimestampNano = 5, Value = 1::real\<rparr>)
            = Inl ''parse error''"
    by (simp_all add: malformed_example_def parse_example_def)
  from load_malformed_never_returns
         [where r = malformed_example and parse = parse_example and start = 0 and ?end0.0 = 10,
          OF a b c d e f]
       a b c d e f
  show ?thesis by simp
qed



section \<open>Advancing: properties\<close>

lemma popBack_fp_frame:
  "iter (popBack_fp ns fp r) = iter r \<and> current (popBack_fp ns fp r) = current r
   \<and> step (popBack_fp ns fp r) = step r \<and> selRange (popBack_fp ns fp r) = selRange r
   \<and> end' (popBack_fp ns fp r) = end' r \<and> metrics (popBack_fp ns fp r) = metrics r"
  by (simp add: popBack_fp_def Let_def split: option.splits prod.splits)

lemma popBack_fold_frame:
  "iter (fold (popBack_fp ns) ks r) = iter r \<and> current (fold (popBack_fp ns) ks r) = current r
   \<and> step (fold (popBack_fp ns) ks r) = step r \<and> selRange (fold (popBack_fp ns) ks r) = selRange r
   \<and> end' (fold (popBack_fp ns) ks r) = end' r \<and> metrics (fold (popBack_fp ns) ks r) = metrics r"
  by (induction ks arbitrary: r) (simp_all add: popBack_fp_frame)

lemma popBack_frame:
  "iter (popBack ns r) = iter r" "current (popBack ns r) = current r"
  "step (popBack ns r) = step r" "selRange (popBack ns r) = selRange r"
  "end' (popBack ns r) = end' r" "metrics (popBack ns r) = metrics r"
  by (simp_all add: popBack_def popBack_fold_frame)

lemma Next_False:
  "end' r <s current r + step r \<Longrightarrow>
   Next parse r = Some (False, r\<lparr>current := current r + step r\<rparr>)"
  by (simp add: Next_def)

lemma Next_Some_False:
  "Next parse r = Some (False, r') \<Longrightarrow>
   end' r <s current r + step r \<and> r' = r\<lparr>current := current r + step r\<rparr>"
  by (auto simp: Next_def Let_def split: if_splits option.splits)

lemma Next_Some_True:
  "Next parse r = Some (True, r') \<Longrightarrow>
   current r + step r \<le>s end' r
   \<and> load parse (current r + step r - selRange r) (current r + step r)
        (popBack (current r + step r - selRange r) (r\<lparr>current := current r + step r\<rparr>)) = Some r'"
  by (auto simp: Next_def Let_def word_sle_eq word_sless_alt split: if_splits option.splits)

lemma Next_True_frame:
  assumes "Next parse r = Some (True, r')"
  shows "current r' = current r + step r" "step r' = step r" "selRange r' = selRange r"
    "end' r' = end' r" "current r' \<le>s end' r'"
    "pending (iter r') = dropWhile (\<lambda>s. TimestampNano s \<le>s current r') (pending (iter r))"
    "nexts (iter r') = nexts (iter r)
       + length (takeWhile (\<lambda>s. TimestampNano s \<le>s current r') (pending (iter r)))"
proof -
  note N = Next_Some_True [OF assms]
  note L = load_Some [OF N [THEN conjunct2]]
  show c: "current r' = current r + step r" using L by (simp add: popBack_frame)
  show "step r' = step r" "selRange r' = selRange r" and e: "end' r' = end' r"
    using L by (simp_all add: popBack_frame)
  show "current r' \<le>s end' r'" using N c e by simp
  show "pending (iter r') = dropWhile (\<lambda>s. TimestampNano s \<le>s current r') (pending (iter r))"
    using L c by (simp add: popBack_frame)
  show "nexts (iter r') = nexts (iter r)
       + length (takeWhile (\<lambda>s. TimestampNano s \<le>s current r') (pending (iter r)))"
    using L c by (simp add: popBack_frame)
qed

lemma Next_consumes_prefix:
  assumes "Next parse r = Some (b, r')"
  shows "\<exists>consumed. pending (iter r) = consumed @ pending (iter r')
           \<and> nexts (iter r') = nexts (iter r) + length consumed"
proof (cases b)
  case True
  with assms have n: "Next parse r = Some (True, r')" by simp
  let ?c = "takeWhile (\<lambda>s. TimestampNano s \<le>s current r') (pending (iter r))"
  have "pending (iter r) = ?c @ pending (iter r')"
    by (simp add: Next_True_frame(6) [OF n])
  with Next_True_frame(7) [OF n] show ?thesis by blast
next
  case False
  with assms Next_Some_False [of parse r r'] show ?thesis by simp
qed

lemma Nexts_consumes_prefix:
  "Nexts parse n r = Some (bs, r') \<Longrightarrow>
   \<exists>consumed. pending (iter r) = consumed @ pending (iter r')
      \<and> nexts (iter r') = nexts (iter r) + length consumed"
proof (induction n arbitrary: r bs)
  case 0
  then show ?case by simp
next
  case (Suc n)
  from Suc.prems obtain b r1 bs1 where
    a: "Next parse r = Some (b, r1)" and b: "Nexts parse n r1 = Some (bs1, r')"
    by (auto split: option.splits)
  from Next_consumes_prefix [OF a] obtain c1 where
    c1: "pending (iter r) = c1 @ pending (iter r1)" "nexts (iter r1) = nexts (iter r) + length c1"
    by blast
  from Suc.IH [OF b] obtain c2 where
    c2: "pending (iter r1) = c2 @ pending (iter r')" "nexts (iter r') = nexts (iter r1) + length c2"
    by blast
  from c1 c2 have "pending (iter r) = (c1 @ c2) @ pending (iter r')
      \<and> nexts (iter r') = nexts (iter r) + length (c1 @ c2)" by simp
  then show ?case by blast
qed


lemma sint_add_no_overflow:
  fixes c st :: int64
  assumes "1 \<le>s st" and "sint c + sint st < 2 ^ 63"
  shows "sint (c + st) = sint c + sint st"
proof -
  have "1 \<le> sint st" using assms(1) by (simp add: word_sle_eq)
  moreover have "- (2 ^ 63) \<le> sint c" using sint_ge [of c] by simp
  ultimately have lo: "- (2 ^ 63) \<le> sint c + sint st" by linarith
  have "sint (c + st) = signed_take_bit 63 (sint c + sint st)"
    by (simp add: sint_word_ariths)
  also have "\<dots> = sint c + sint st"
    using lo assms(2) by (rule signed_take_bit_int_eq_self)
  finally show ?thesis .
qed

lemma sint_add_mult_no_overflow:
  fixes c st :: int64
  assumes "1 \<le>s st" and "sint c + int n * sint st < 2 ^ 63"
  shows "sint (c + of_nat n * st) = sint c + int n * sint st"
  using assms(2)
proof (induction n)
  case 0
  then show ?case by simp
next
  case (Suc n)
  have pos: "1 \<le> sint st" using assms(1) by (simp add: word_sle_eq)
  then have "0 \<le> int n * sint st" by simp
  have le: "sint c + int n * sint st \<le> sint c + int (Suc n) * sint st"
    using pos by (simp add: algebra_simps)
  with Suc.prems have "sint c + int n * sint st < 2 ^ 63" by linarith
  from Suc.IH [OF this] have ih: "sint (c + of_nat n * st) = sint c + int n * sint st" .
  have "sint (c + of_nat n * st) + sint st < 2 ^ 63"
    using Suc.prems unfolding ih by (simp add: algebra_simps)
  then have "sint ((c + of_nat n * st) + st) = sint (c + of_nat n * st) + sint st"
    by (rule sint_add_no_overflow [OF assms(1)])
  moreover have "c + of_nat (Suc n) * st = (c + of_nat n * st) + st"
    by (simp add: algebra_simps)
  ultimately show ?case by (simp only: ih) (simp add: algebra_simps)
qed


lemma Nexts_exhausted:
  "1 \<le>s step r \<Longrightarrow> sint (end' r) < sint (current r) + sint (step r) \<Longrightarrow>
   sint (current r) + int n * sint (step r) < 2 ^ 63 \<Longrightarrow>
   Nexts parse n r = Some (replicate n False, r\<lparr>current := current r + of_nat n * step r\<rparr>)"
proof (induction n arbitrary: r)
  case 0
  then show ?case by simp
next
  case (Suc n)
  have pos: "1 \<le> sint (step r)" using Suc.prems(1) by (simp add: word_sle_eq)
  have "sint (current r) + sint (step r) \<le> sint (current r) + int (Suc n) * sint (step r)"
    using pos by (simp add: algebra_simps)
  with Suc.prems(3) have b1: "sint (current r) + sint (step r) < 2 ^ 63" by linarith
  have s1: "sint (current r + step r) = sint (current r) + sint (step r)"
    by (rule sint_add_no_overflow [OF Suc.prems(1) b1])
  let ?r1 = "r\<lparr>current := current r + step r\<rparr>"
  have n1: "Next parse r = Some (False, ?r1)"
    using Suc.prems(2) s1 by (intro Next_False) (simp add: word_sless_alt)
  have "Nexts parse n ?r1
        = Some (replicate n False, ?r1\<lparr>current := current ?r1 + of_nat n * step ?r1\<rparr>)"
  proof (rule Suc.IH)
    show "1 \<le>s step ?r1" using Suc.prems(1) by simp
    show "sint (end' ?r1) < sint (current ?r1) + sint (step ?r1)"
      using Suc.prems(2) s1 pos by simp
    show "sint (current ?r1) + int n * sint (step ?r1) < 2 ^ 63"
      using Suc.prems(3) s1 by (simp add: algebra_simps)
  qed
  with n1 show ?case by (simp add: algebra_simps)
qed

text \<open>
  Claim C8, as amended. With an effective step of at least 1, a \<^verbatim>\<open>Next\<close> call that computes
  \<open>current + step > end\<close> returns false and leaves the window store, the labels cache, the
  pool and the Sample Source as they are: only \<open>current\<close> has moved on by \<open>step\<close>. The
  calls after it return false as well, each moving \<open>current\<close> by \<open>step\<close>, for as long as
  \<open>current\<close> does not pass the largest \<^verbatim>\<open>int64\<close>.
\<close>

theorem exhaustion_terminal:
  assumes "1 \<le>s step r" and "end' r <s current r + step r"
    and "sint (current r) + int (Suc n) * sint (step r) < 2 ^ 63"
  shows "Next parse r = Some (False, r\<lparr>current := current r + step r\<rparr>)
       \<and> Nexts parse (Suc n) r
           = Some (replicate (Suc n) False, r\<lparr>current := current r + of_nat (Suc n) * step r\<rparr>)"
proof -
  have pos: "1 \<le> sint (step r)" using assms(1) by (simp add: word_sle_eq)
  have "sint (current r) + sint (step r) \<le> sint (current r) + int (Suc n) * sint (step r)"
    using pos by (simp add: algebra_simps)
  with assms(3) have "sint (current r) + sint (step r) < 2 ^ 63" by linarith
  from sint_add_no_overflow [OF assms(1) this] assms(2)
  have "sint (end' r) < sint (current r) + sint (step r)" by (simp add: word_sless_alt)
  from Nexts_exhausted [OF assms(1) this assms(3)] Next_False [OF assms(2)]
  show ?thesis by simp
qed

theorem exhaustion_terminal_counterexample:
  "map_option fst (Nexts parse_example 3 wrap_example) = Some [True, False, True]
   \<and> (1 :: int64) \<le>s step wrap_example"
  by (simp add: numeral_3_eq_3 wrap_example_def newRangeVectorIterator_def Next_def popBack_def
        load.simps load_body_def iter_Peek_def word_sle_eq word_sless_alt)


theorem exhaustion_terminal_witness:
  "(1 :: int64) \<le>s step malformed_example
   \<and> end' malformed_example <s current malformed_example + step malformed_example
   \<and> sint (current malformed_example) + int (Suc 2) * sint (step malformed_example) < 2 ^ 63
   \<and> Next parse_example malformed_example = Some (False, malformed_example\<lparr>current := 20\<rparr>)
   \<and> Nexts parse_example (Suc 2) malformed_example
       = Some ([False, False, False], malformed_example\<lparr>current := 40\<rparr>)"
proof -
  have a: "(1 :: int64) \<le>s step malformed_example"
    and b: "end' malformed_example <s current malformed_example + step malformed_example"
    and c: "sint (current malformed_example) + int (Suc 2) * sint (step malformed_example) < 2 ^ 63"
    by (simp_all add: malformed_example_def word_sle_eq word_sless_alt)
  have cur: "current malformed_example + step malformed_example = 20"
    "current malformed_example + of_nat (Suc 2) * step malformed_example = 40"
    by (simp_all add: malformed_example_def)
  have rep: "replicate (Suc 2) False = [False, False, False]"
    by (simp add: numeral_2_eq_2)
  from exhaustion_terminal [OF a b c, of parse_example, unfolded cur rep] a b c
  show ?thesis by blast
qed

lemma Next_current:
  "Next parse r = Some (b, r') \<Longrightarrow> current r' = current r + step r \<and> step r' = step r"
  using Next_True_frame(1,2) [of parse r r'] Next_Some_False [of parse r r']
  by (cases b) auto

text \<open>
  Claim C6, as amended. A configured step of 0 becomes the effective step 1; any other step,
  a negative one too, is stored as it is. Every \<^verbatim>\<open>Next\<close> call that returns has added the
  effective step to \<open>current\<close> and kept the step; with an effective step of at least 1,
  \<open>current\<close> strictly increases as long as \<open>current + step\<close> does not pass the largest
  \<^verbatim>\<open>int64\<close>.
\<close>

theorem effective_step:
  "step (newRangeVectorIterator it pool selRange0 0 start end0) = 1
   \<and> (step0 \<noteq> 0 \<longrightarrow> step (newRangeVectorIterator it pool selRange0 step0 start end0) = step0)
   \<and> (Next parse r = Some (b, r') \<longrightarrow> current r' = current r + step r \<and> step r' = step r)
   \<and> (1 \<le>s step r \<and> sint (current r) + sint (step r) < 2 ^ 63
        \<longrightarrow> current r <s current r + step r)"
proof (intro conjI impI)
  show "step (newRangeVectorIterator it pool selRange0 0 start end0) = 1"
    by (simp add: newRangeVectorIterator_def)
  show "step (newRangeVectorIterator it pool selRange0 step0 start end0) = step0"
    if "step0 \<noteq> 0" using that by (simp add: newRangeVectorIterator_def)
  show "current r' = current r + step r" "step r' = step r"
    if "Next parse r = Some (b, r')" using Next_current [OF that] by simp_all
  show "current r <s current r + step r"
    if "1 \<le>s step r \<and> sint (current r) + sint (step r) < 2 ^ 63"
  proof -
    from that have "sint (current r + step r) = sint (current r) + sint (step r)"
      by (intro sint_add_no_overflow) simp_all
    moreover from that have "1 \<le> sint (step r)" by (simp add: word_sle_eq)
    ultimately show ?thesis by (simp add: word_sless_alt)
  qed
qed

theorem effective_step_counterexample:
  "(- 1 :: int64) \<le>s 0
   \<and> step negative_step_example = - 1
   \<and> current negative_step_example = 1
   \<and> map_option fst (Next parse_example negative_step_example) = Some True
   \<and> map_option (current \<circ> snd) (Next parse_example negative_step_example) = Some 0"
  by (simp add: negative_step_example_def newRangeVectorIterator_def Next_def popBack_def
        load.simps load_body_def iter_Peek_def word_sle_eq word_sless_alt)

theorem effective_step_witness:
  "step (newRangeVectorIterator (iter scenario) [] 5 0 0 10) = 1
   \<and> (5 :: int64) \<noteq> 0 \<and> step scenario = 5
   \<and> Next parse_example scenario
       = Some (True, scenario
           \<lparr>current := 0,
            iter := \<lparr>pending = [\<lparr>Labels = ''A'', TimestampNano = 3, Value = 2\<rparr>,
                                \<lparr>Labels = ''A'', TimestampNano = 11, Value = 3\<rparr>], nexts = 1\<rparr>,
            window := [(''A'', \<lparr>Series.Metric = [(''__name__'', ''A'')],
                              Points = [\<lparr>T = 0, V = 1\<rparr>]\<rparr>)],
            metrics := [''A'' \<mapsto> [(''__name__'', ''A'')]]\<rparr>)
   \<and> (1 :: int64) \<le>s step scenario
   \<and> sint (current scenario) + sint (step scenario) < 2 ^ 63
   \<and> current scenario <s current scenario + step scenario"
proof -
  have n: "Next parse_example scenario
       = Some (True, scenario
           \<lparr>current := 0,
            iter := \<lparr>pending = [\<lparr>Labels = ''A'', TimestampNano = 3, Value = 2\<rparr>,
                                \<lparr>Labels = ''A'', TimestampNano = 11, Value = 3\<rparr>], nexts = 1\<rparr>,
            window := [(''A'', \<lparr>Series.Metric = [(''__name__'', ''A'')],
                              Points = [\<lparr>T = 0, V = 1\<rparr>]\<rparr>)],
            metrics := [''A'' \<mapsto> [(''__name__'', ''A'')]]\<rparr>)"
    by (simp add: scenario_def newRangeVectorIterator_def Next_def popBack_def load.simps
          load_body_def iter_Peek_def iter_Next_def load_append_def load_fresh_def getSeries_def
          parse_example_def word_sle_eq word_sless_alt)
  have h: "(1 :: int64) \<le>s step scenario \<and> sint (current scenario) + sint (step scenario) < 2 ^ 63"
    by (simp add: scenario_def newRangeVectorIterator_def word_sle_eq)
  from effective_step [of "iter scenario" "[]" 5 0 10 5 parse_example scenario] h n
  show ?thesis by (simp add: scenario_def newRangeVectorIterator_def)
qed

section \<open>Output: properties\<close>

lemma fold_snoc_map: "fold (\<lambda>x acc. acc @ [f x]) xs acc = acc @ map f xs"
  by (induction xs arbitrary: acc) simp_all

lemma At_eq:
  "At aggregator r =
     (r, int64_quo (current r) 1000000,
      map (\<lambda>(fp, series).
             \<lparr>Point = \<lparr>T = int64_quo (current r) 1000000, V = aggregator (Points series)\<rparr>,
              promql_Sample.Metric = Series.Metric series\<rparr>)
          (window r))"
  using fold_snoc_map [of "\<lambda>(fp, series).
             \<lparr>Point = \<lparr>T = int64_quo (current r) 1000000, V = aggregator (Points series)\<rparr>,
              promql_Sample.Metric = Series.Metric series\<rparr>" "window r" "[]"]
  by (simp add: At_def Let_def split_def)

lemma sint_int64_quo_million:
  "sint (int64_quo c 1000000) = sgn (sint c) * (\<bar>sint c\<bar> div 1000000)"
proof -
  let ?k = "sint c"
  let ?q = "sgn ?k * (\<bar>?k\<bar> div 1000000)"
  have lo: "- (2 ^ 63) \<le> ?k" using sint_ge [of c] by simp
  have hi: "?k < 2 ^ 63" using sint_lt [of c] by simp
  have q: "?k sdiv 1000000 = ?q" by (simp add: signed_divide_int_def)
  have "\<bar>?q\<bar> \<le> \<bar>?k\<bar> div 1000000" by (simp add: abs_mult abs_sgn_eq)
  also have "\<dots> < 2 ^ 63" using lo hi by linarith
  finally have "- (2 ^ 63) \<le> ?q" "?q < 2 ^ 63" by linarith+
  then have "signed_take_bit 63 ?q = ?q" by (rule signed_take_bit_int_eq_self)
  moreover have "sint (word_of_int ?q :: int64) = signed_take_bit 63 ?q"
    by (simp only: sint_sbintrunc') simp
  moreover have "sint (1000000 :: int64) = 1000000" by simp
  ultimately show ?thesis by (simp only: int64_quo_def q)
qed

text \<open>
  Claim C7. For every state and every aggregator, \<open>At\<close> returns the timestamp
  \<open>current / 1000000\<close> and a vector with one sample per entry of the window store, in the
  order the entries are visited: its value is the aggregator applied to the entry's points,
  its metric the entry's labels, and its timestamp the returned one. The division truncates
  towards zero: the quotient is the sign of \<open>current\<close> times \<open>\<bar>current\<bar> div 1000000\<close>.
\<close>

theorem At_vector:
  "At aggregator r =
     (r, int64_quo (current r) 1000000,
      map (\<lambda>(fp, series).
             \<lparr>Point = \<lparr>T = int64_quo (current r) 1000000, V = aggregator (Points series)\<rparr>,
              promql_Sample.Metric = Series.Metric series\<rparr>)
          (window r))
   \<and> length (snd (snd (At aggregator r))) = length (window r)
   \<and> sint (int64_quo (current r) 1000000)
       = sgn (sint (current r)) * (\<bar>sint (current r)\<bar> div 1000000)"
  by (simp add: At_eq sint_int64_quo_million)

theorem At_vector_witness:
  "At sum_aggregator at_example =
     (at_example, - 1,
      [\<lparr>Point = \<lparr>T = - 1, V = 3\<rparr>, promql_Sample.Metric = []\<rparr>,
       \<lparr>Point = \<lparr>T = - 1, V = 7\<rparr>, promql_Sample.Metric = []\<rparr>])"
proof -
  have q: "int64_quo (- 1500000) 1000000 = - 1"
    by (simp add: int64_quo_def signed_divide_int_def)
  from At_vector [of sum_aggregator at_example] show ?thesis
    by (simp add: at_example_def evict_example_def q sum_aggregator_def)
qed


text \<open>
  Claim C10. \<open>At\<close> hands back the iterator state it was given: \<open>current\<close>, the window
  store, the labels cache, the pool and the Sample Source with its count of \<^verbatim>\<open>Next\<close> calls
  are unchanged, so a second \<open>At\<close> returns what the first returned. If the runtime visits
  the same entries in another order, the timestamp is the same and the vector holds the same
  samples (equal as multisets).
\<close>

theorem At_frame:
  "fst (At aggregator r) = r
   \<and> At aggregator (fst (At aggregator r)) = At aggregator r
   \<and> (mset (window r2) = mset (window r) \<and> current r2 = current r
        \<longrightarrow> fst (snd (At aggregator r2)) = fst (snd (At aggregator r))
          \<and> mset (snd (snd (At aggregator r2))) = mset (snd (snd (At aggregator r))))"
proof (intro conjI impI)
  show "fst (At aggregator r) = r" by (simp add: At_eq)
  then show "At aggregator (fst (At aggregator r)) = At aggregator r" by simp
next
  assume a: "mset (window r2) = mset (window r) \<and> current r2 = current r"
  then show "fst (snd (At aggregator r2)) = fst (snd (At aggregator r))"
    by (simp add: At_eq)
  let ?f = "\<lambda>(fp, series).
             \<lparr>Point = \<lparr>T = int64_quo (current r) 1000000, V = aggregator (Points series)\<rparr>,
              promql_Sample.Metric = Series.Metric series\<rparr>"
  have "mset (map ?f (window r2)) = mset (map ?f (window r))"
    using a by (simp only: mset_map)
  with a show "mset (snd (snd (At aggregator r2))) = mset (snd (snd (At aggregator r)))"
    by (simp add: At_eq)
qed

theorem At_frame_witness:
  "mset (window at_example_reordered) = mset (window at_example)
   \<and> current at_example_reordered = current at_example
   \<and> fst (At sum_aggregator at_example) = at_example
   \<and> fst (snd (At sum_aggregator at_example_reordered)) = - 1
   \<and> fst (snd (At sum_aggregator at_example)) = - 1
   \<and> snd (snd (At sum_aggregator at_example_reordered))
       = [\<lparr>Point = \<lparr>T = - 1, V = 7\<rparr>, promql_Sample.Metric = []\<rparr>,
          \<lparr>Point = \<lparr>T = - 1, V = 3\<rparr>, promql_Sample.Metric = []\<rparr>]
   \<and> mset (snd (snd (At sum_aggregator at_example_reordered)))
       = mset (snd (snd (At sum_aggregator at_example)))"
proof -
  have h: "mset (window at_example_reordered) = mset (window at_example)
             \<and> current at_example_reordered = current at_example"
    by (simp add: at_example_reordered_def)
  have q: "int64_quo (- 1500000) 1000000 = - 1"
    by (simp add: int64_quo_def signed_divide_int_def)
  have e: "snd (snd (At sum_aggregator at_example_reordered))
       = [\<lparr>Point = \<lparr>T = - 1, V = 7\<rparr>, promql_Sample.Metric = []\<rparr>,
          \<lparr>Point = \<lparr>T = - 1, V = 3\<rparr>, promql_Sample.Metric = []\<rparr>]"
    "fst (snd (At sum_aggregator at_example)) = - 1"
    by (simp_all add: At_def Let_def at_example_reordered_def at_example_def evict_example_def q
          sum_aggregator_def)
  from At_frame [of sum_aggregator at_example at_example_reordered] h e
  show ?thesis by simp
qed

lemma Nexts_numeral:
  "Nexts parse (numeral k) r =
     (case Next parse r of
        None \<Rightarrow> None
      | Some (b, r1) \<Rightarrow>
          (case Nexts parse (pred_numeral k) r1 of
             None \<Rightarrow> None
           | Some (bs, r2) \<Rightarrow> Some (b # bs, r2)))"
  by (simp add: numeral_eq_Suc)

text \<open>
  Claim C9. The end-to-end scenario: construction leaves \<open>current = -5\<close>; the first
  \<^verbatim>\<open>Next\<close> returns true with the window \<open>A: [(0, 1)]\<close>, and \<open>At\<close> with the sum gives
  timestamp 0 and one sample of value 1; the second returns true with the window
  \<open>A: [(3, 2)]\<close> at \<open>current = 5\<close>, and \<open>At\<close> gives timestamp 0 and value 2; the third
  returns true with an empty window and an empty vector; the fourth returns false, and the
  sample at 11 is still in the source, which has seen two \<^verbatim>\<open>Next\<close> calls.
\<close>

theorem end_to_end_scenario:
  "current scenario = - 5
   \<and> map_option fst (Nexts parse_example 1 scenario) = Some [True]
   \<and> map_option (window \<circ> snd) (Nexts parse_example 1 scenario)
       = Some [(''A'', \<lparr>Series.Metric = [(''__name__'', ''A'')], Points = [\<lparr>T = 0, V = 1\<rparr>]\<rparr>)]
   \<and> map_option (snd \<circ> At sum_aggregator \<circ> snd) (Nexts parse_example 1 scenario)
       = Some (0, [\<lparr>Point = \<lparr>T = 0, V = 1\<rparr>, promql_Sample.Metric = [(''__name__'', ''A'')]\<rparr>])
   \<and> map_option (nexts \<circ> iter \<circ> snd) (Nexts parse_example 1 scenario) = Some 1
   \<and> map_option fst (Nexts parse_example 2 scenario) = Some [True, True]
   \<and> map_option (window \<circ> snd) (Nexts parse_example 2 scenario)
       = Some [(''A'', \<lparr>Series.Metric = [(''__name__'', ''A'')], Points = [\<lparr>T = 3, V = 2\<rparr>]\<rparr>)]
   \<and> map_option (snd \<circ> At sum_aggregator \<circ> snd) (Nexts parse_example 2 scenario)
       = Some (0, [\<lparr>Point = \<lparr>T = 0, V = 2\<rparr>, promql_Sample.Metric = [(''__name__'', ''A'')]\<rparr>])
   \<and> map_option (current \<circ> snd) (Nexts parse_example 2 scenario) = Some 5
   \<and> map_option fst (Nexts parse_example 3 scenario) = Some [True, True, True]
   \<and> map_option (window \<circ> snd) (Nexts parse_example 3 scenario) = Some []
   \<and> map_option (snd \<circ> At sum_aggregator \<circ> snd) (Nexts parse_example 3 scenario)
       = Some (0, [])
   \<and> map_option fst (Nexts parse_example 4 scenario) = Some [True, True, True, False]
   \<and> map_option (pending \<circ> iter \<circ> snd) (Nexts parse_example 4 scenario)
       = Some [\<lparr>Labels = ''A'', TimestampNano = 11, Value = 3\<rparr>]
   \<and> map_option (nexts \<circ> iter \<circ> snd) (Nexts parse_example 4 scenario) = Some 2"
  by (simp add: Nexts_numeral scenario_def newRangeVectorIterator_def Next_def popBack_def
        popBack_fp_def putSeries_def load.simps load_body_def iter_Peek_def iter_Next_def
        load_append_def load_fresh_def getSeries_def parse_example_def At_def Let_def int64_quo_def
        signed_divide_int_def sum_aggregator_def word_sle_eq word_sless_alt)

section \<open>Runs of \<^verbatim>\<open>Next\<close> calls: properties\<close>

lemma Points_evict: "Points (evict ns s) = dropWhile (\<lambda>p. T p \<le>s ns) (Points s)"
  by (simp add: evict_def)

lemma points_of_evict_all:
  assumes "distinct (map fst w)"
  shows "points_of (evict_all ns w) fp = dropWhile (\<lambda>p. T p \<le>s ns) (points_of w fp)"
proof (cases "map_of w fp")
  case None
  then show ?thesis by (simp add: points_of_def map_of_evict_all [OF assms])
next
  case (Some s)
  show ?thesis
  proof (cases "Points (evict ns s) = []")
    case True
    with Some have "points_of (evict_all ns w) fp = []"
      by (simp add: points_of_def map_of_evict_all [OF assms])
    with True Some show ?thesis by (simp only: Points_evict points_of_def option.case)
  next
    case False
    with Some have "points_of (evict_all ns w) fp = Points (evict ns s)"
      by (simp add: points_of_def map_of_evict_all [OF assms])
    with Some show ?thesis by (simp only: Points_evict points_of_def option.case)
  qed
qed

lemma distinct_evict_all:
  assumes "distinct (map fst w)"
  shows "distinct (map fst (evict_all ns w))"
proof -
  have "map fst (map (\<lambda>(fp, s). (fp, evict ns s)) w) = map fst w"
    by (induction w) auto
  with assms have "distinct (map fst (map (\<lambda>(fp, s). (fp, evict ns s)) w))" by (simp only:)
  then show ?thesis unfolding evict_all_def by (rule distinct_map_filter)
qed

lemma sorted_wrt_dropWhile: "sorted_wrt R xs \<Longrightarrow> sorted_wrt R (dropWhile P xs)"
  unfolding dropWhile_eq_drop by (rule sorted_wrt_drop)

lemma sorted_wrt_takeWhile: "sorted_wrt R xs \<Longrightarrow> sorted_wrt R (takeWhile P xs)"
  by (metis takeWhile_eq_take sorted_wrt_take)

lemma sorted_wrt_take_drop_While:
  "sorted_wrt R xs \<Longrightarrow> x \<in> set (takeWhile P xs) \<Longrightarrow> y \<in> set (dropWhile P xs) \<Longrightarrow> R x y"
  using sorted_wrt_append [of R "takeWhile P xs" "dropWhile P xs"] by simp

lemma dropWhile_dropWhile_weaker:
  "(\<And>x. P x \<Longrightarrow> Q x) \<Longrightarrow> dropWhile Q (dropWhile P xs) = dropWhile Q xs"
  by (induction xs) auto

lemma points_of_entry:
  "distinct (map fst w) \<Longrightarrow> (fp, s) \<in> set w \<Longrightarrow> points_of w fp = Points s"
  by (simp add: points_of_def)

lemma points_of_empty_window: "points_of [] fp = []"
  by (simp add: points_of_def)

lemma points_of_nonempty: "p \<in> set (points_of w fp) \<Longrightarrow> w \<noteq> []"
  by (auto simp: points_of_def)


lemma Next_True_points:
  assumes d: "distinct (map fst (window r))" and n: "Next parse r = Some (True, r')"
  shows "distinct (map fst (window r'))"
    and "points_of (window r') fp =
           dropWhile (\<lambda>p. T p \<le>s current r' - selRange r') (points_of (window r) fp)
           @ map to_point
               (filter (\<lambda>s. Labels s = fp \<and> current r' - selRange r' <s TimestampNano s)
                  (takeWhile (\<lambda>s. TimestampNano s \<le>s current r') (pending (iter r))))"
proof -
  let ?c = "current r + step r"
  let ?st = "?c - selRange r"
  let ?r1 = "r\<lparr>current := ?c\<rparr>"
  have d1: "distinct (map fst (window ?r1))" using d by simp
  have pb: "window (popBack ?st ?r1) = evict_all ?st (window r)"
    by (simp add: popBack_eq [OF d1])
  note L = load_Some [OF Next_Some_True [OF n, THEN conjunct2]]
  have c: "current r' = ?c" and sel: "selRange r' = selRange r"
    using Next_True_frame [OF n] by simp_all
  show "distinct (map fst (window r'))"
    using L pb distinct_evict_all [OF d] by simp
  show "points_of (window r') fp =
           dropWhile (\<lambda>p. T p \<le>s current r' - selRange r') (points_of (window r) fp)
           @ map to_point
               (filter (\<lambda>s. Labels s = fp \<and> current r' - selRange r' <s TimestampNano s)
                  (takeWhile (\<lambda>s. TimestampNano s \<le>s current r') (pending (iter r))))"
    using L by (simp add: pb points_of_evict_all [OF d] c sel popBack_frame)
qed

lemma T_to_point: "T (to_point s) = TimestampNano s"
  by (simp add: to_point_def)

lemma Next_True_inv:
  assumes inv: "run_inv r" and n: "Next parse r = Some (True, r')"
  shows "run_inv r'"
    and "\<forall>fp. \<forall>p \<in> set (points_of (window r') fp).
           current r' - selRange r' <s T p \<and> T p \<le>s current r'"
proof -
  let ?c = "current r'"
  let ?st = "current r' - selRange r'"
  let ?pend = "pending (iter r)"
  let ?old = "\<lambda>fp. dropWhile (\<lambda>p. T p \<le>s ?st) (points_of (window r) fp)"
  let ?new = "\<lambda>fp. map to_point
               (filter (\<lambda>s. Labels s = fp \<and> ?st <s TimestampNano s)
                  (takeWhile (\<lambda>s. TimestampNano s \<le>s ?c) ?pend))"
  from inv have pos: "1 \<le>s step r" and nov: "sint (end' r) + sint (step r) < 2 ^ 63"
    and d: "distinct (map fst (window r))"
    and sp: "sorted_wrt (\<lambda>a b. TimestampNano a \<le>s TimestampNano b) ?pend"
    and sw: "\<And>fp. sorted_wrt (\<lambda>p q. T p \<le>s T q) (points_of (window r) fp)"
    and le_pend: "\<And>fp p x. p \<in> set (points_of (window r) fp) \<Longrightarrow> x \<in> set ?pend
                    \<Longrightarrow> T p \<le>s TimestampNano x"
    and le_cur: "\<And>fp p. p \<in> set (points_of (window r) fp) \<Longrightarrow> T p \<le>s current r"
    and fin: "window r = [] \<or> current r \<le>s end' r"
    by (auto simp: run_inv_def)
  note F = Next_True_frame [OF n]
  note P = Next_True_points [OF d n]
  have pts: "\<And>fp. points_of (window r') fp = ?old fp @ ?new fp" by (rule P(2))
  have old_le_c: "T p \<le>s ?c" if "p \<in> set (points_of (window r) fp)" for fp p
  proof -
    from that have "window r \<noteq> []" by (rule points_of_nonempty)
    with fin have "current r \<le>s end' r" by simp
    with nov have "sint (current r) + sint (step r) < 2 ^ 63" by (simp add: word_sle_eq)
    from sint_add_no_overflow [OF pos this] pos
    have "current r \<le>s current r + step r" by (simp add: word_sle_eq)
    with le_cur [OF that] show ?thesis by (simp add: F(1) word_sle_eq)
  qed
  let ?tk = "takeWhile (\<lambda>s. TimestampNano s \<le>s ?c) ?pend"
  have new_src: "\<exists>s \<in> set ?tk. p = to_point s \<and> ?st <s TimestampNano s"
    if "p \<in> set (?new fp)" for p fp
    using that by auto
  have i1: "1 \<le>s step r'" using pos by (simp add: F(2))
  have i2: "sint (end' r') + sint (step r') < 2 ^ 63" using nov by (simp add: F(2,4))
  have i4: "sorted_wrt (\<lambda>a b. TimestampNano a \<le>s TimestampNano b) (pending (iter r'))"
    unfolding F(6) by (rule sorted_wrt_dropWhile [OF sp])
  have i5: "sorted_wrt (\<lambda>p q. T p \<le>s T q) (points_of (window r') fp)" for fp
  proof -
    have a: "sorted_wrt (\<lambda>p q. T p \<le>s T q) (?old fp)"
      by (rule sorted_wrt_dropWhile [OF sw])
    have "sorted_wrt (\<lambda>a b. TimestampNano a \<le>s TimestampNano b)
            (filter (\<lambda>s. Labels s = fp \<and> ?st <s TimestampNano s) ?tk)"
      by (intro sorted_wrt_filter sorted_wrt_takeWhile sp)
    then have b: "sorted_wrt (\<lambda>p q. T p \<le>s T q) (?new fp)"
      by (simp add: sorted_wrt_map T_to_point)
    have c: "T p \<le>s T q" if "p \<in> set (?old fp)" "q \<in> set (?new fp)" for p q
    proof -
      from that(1) have p: "p \<in> set (points_of (window r) fp)" by (rule set_dropWhileD)
      from new_src [OF that(2)] obtain s where s: "s \<in> set ?tk" "q = to_point s" by blast
      from s(1) have "s \<in> set ?pend" by (auto dest: set_takeWhileD)
      from le_pend [OF p this] show ?thesis by (simp add: s(2) T_to_point)
    qed
    from a b c show ?thesis unfolding pts by (simp add: sorted_wrt_append)
  qed
  have i6: "(\<forall>x \<in> set (pending (iter r')). T p \<le>s TimestampNano x) \<and> T p \<le>s ?c"
    if "p \<in> set (points_of (window r') fp)" for p fp
  proof -
    from that consider "p \<in> set (?old fp)" | "p \<in> set (?new fp)" by (auto simp: pts)
    then show ?thesis
    proof cases
      case 1
      then have p: "p \<in> set (points_of (window r) fp)" by (rule set_dropWhileD)
      have "T p \<le>s TimestampNano x" if "x \<in> set (pending (iter r'))" for x
        using that le_pend [OF p, of x] by (auto simp: F(6) dest: set_dropWhileD)
      with old_le_c [OF p] show ?thesis by blast
    next
      case 2
      from new_src [OF 2] obtain s where s: "s \<in> set ?tk" "p = to_point s" by blast
      have "TimestampNano s \<le>s TimestampNano x" if "x \<in> set (pending (iter r'))" for x
        using sorted_wrt_take_drop_While [OF sp s(1)] that by (simp add: F(6))
      moreover have "TimestampNano s \<le>s ?c" using s(1) by (auto dest: set_takeWhileD)
      ultimately show ?thesis by (simp add: s(2) T_to_point)
    qed
  qed
  show "run_inv r'"
    unfolding run_inv_def using i1 i2 P(1) i4 i5 i6 F(5) by blast
  show "\<forall>fp. \<forall>p \<in> set (points_of (window r') fp). ?st <s T p \<and> T p \<le>s ?c"
  proof (intro allI ballI)
    fix fp p
    assume "p \<in> set (points_of (window r') fp)"
    then consider "p \<in> set (?old fp)" | "p \<in> set (?new fp)" by (auto simp: pts)
    then show "?st <s T p \<and> T p \<le>s ?c"
    proof cases
      case 1
      then have "?st <s T p" by (rule dropWhile_sorted_above [OF sw])
      moreover from 1 have "p \<in> set (points_of (window r) fp)" by (rule set_dropWhileD)
      then have "T p \<le>s ?c" by (rule old_le_c)
      ultimately show ?thesis by simp
    next
      case 2
      then obtain s where "p = to_point s" "?st <s TimestampNano s"
        "s \<in> set (takeWhile (\<lambda>s. TimestampNano s \<le>s ?c) ?pend)" by auto
      then show ?thesis by (auto simp: T_to_point dest: set_takeWhileD)
    qed
  qed
qed


lemma Nexts_Suc_Some:
  "Nexts parse (Suc n) r = Some (b # bs, r') \<longleftrightarrow>
     (\<exists>r1. Next parse r = Some (b, r1) \<and> Nexts parse n r1 = Some (bs, r'))"
  by (auto split: option.splits)

lemma Nexts_True_inv:
  "run_inv r0 \<Longrightarrow> Nexts parse (Suc n) r0 = Some (replicate (Suc n) True, r) \<Longrightarrow>
   run_inv r \<and> (\<forall>fp. \<forall>p \<in> set (points_of (window r) fp).
                  current r - selRange r <s T p \<and> T p \<le>s current r)"
proof (induction n arbitrary: r0)
  case 0
  then have "Next parse r0 = Some (True, r)" by (auto split: option.splits)
  from Next_True_inv [OF "0.prems"(1) this] show ?case by blast
next
  case (Suc n)
  from Suc.prems(2) obtain r1 where
    a: "Next parse r0 = Some (True, r1)"
    and b: "Nexts parse (Suc n) r1 = Some (replicate (Suc n) True, r)"
    by (auto simp only: replicate_Suc Nexts_Suc_Some)
  from Next_True_inv(1) [OF Suc.prems(1) a] have "run_inv r1" .
  from Suc.IH [OF this b] show ?case .
qed

lemma run_inv_new:
  assumes "1 \<le>s step0" and "sint end0 + sint step0 < 2 ^ 63"
    and "sorted_wrt (\<lambda>a b. TimestampNano a \<le>s TimestampNano b) (pending it)"
  shows "run_inv (newRangeVectorIterator it pool selRange0 step0 start end0)"
proof -
  from assms(1) have "step0 \<noteq> 0" by (auto simp: word_sle_eq)
  with assms show ?thesis
    by (simp add: run_inv_def newRangeVectorIterator_def points_of_empty_window)
qed

text \<open>
  Claim C5, as amended. Take an iterator constructed with a step of at least 1 over a source
  in ascending timestamp order, with \<open>end + step\<close> within \<^verbatim>\<open>int64\<close>. After every call of
  an unbroken run of successful \<^verbatim>\<open>Next\<close> calls, every point of every series in the window
  has \<open>current - selRange < T \<le> current\<close>. And the state a successful \<^verbatim>\<open>Next\<close> returns is
  the one \<open>load\<close> produces from the state \<open>popBack\<close> has left: eviction comes first.
\<close>

theorem window_invariant:
  assumes "1 \<le>s step0"
    and "sorted_wrt (\<lambda>a b. TimestampNano a \<le>s TimestampNano b) (pending it)"
    and "sint end0 + sint step0 < 2 ^ 63"
    and "Nexts parse (Suc n) (newRangeVectorIterator it pool selRange0 step0 start end0)
           = Some (replicate (Suc n) True, r)"
  shows "(\<forall>(fp, s) \<in> set (window r). \<forall>p \<in> set (Points s).
            current r - selRange r <s T p \<and> T p \<le>s current r)
       \<and> (\<forall>r1 r2. Next parse r1 = Some (True, r2) \<longrightarrow>
             load parse (current r1 + step r1 - selRange r1) (current r1 + step r1)
               (popBack (current r1 + step r1 - selRange r1)
                  (r1\<lparr>current := current r1 + step r1\<rparr>)) = Some r2)"
proof (intro conjI allI impI)
  note I = Nexts_True_inv [OF run_inv_new [OF assms(1,3,2)] assms(4)]
  then have d: "distinct (map fst (window r))" by (simp add: run_inv_def)
  show "\<forall>(fp, s) \<in> set (window r). \<forall>p \<in> set (Points s).
            current r - selRange r <s T p \<and> T p \<le>s current r"
  proof (clarify)
    fix fp s p
    assume "(fp, s) \<in> set (window r)" "p \<in> set (Points s)"
    then have "p \<in> set (points_of (window r) fp)" by (simp add: points_of_entry [OF d])
    with I show "current r - selRange r <s T p \<and> T p \<le>s current r" by blast
  qed
next
  fix r1 r2
  assume "Next parse r1 = Some (True, r2)"
  then show "load parse (current r1 + step r1 - selRange r1) (current r1 + step r1)
               (popBack (current r1 + step r1 - selRange r1)
                  (r1\<lparr>current := current r1 + step r1\<rparr>)) = Some r2"
    by (simp add: Next_Some_True)
qed

theorem window_invariant_counterexample:
  "(1 :: int64) \<le>s step overflow_example
   \<and> sorted_wrt (\<lambda>a b. TimestampNano a \<le>s TimestampNano b) (pending (iter overflow_example))
   \<and> map_option fst (Nexts parse_example 2 overflow_example) = Some [True, True]
   \<and> map_option (window \<circ> snd) (Nexts parse_example 2 overflow_example)
       = Some [(''A'', \<lparr>Series.Metric = [(''__name__'', ''A'')],
                        Points = [\<lparr>T = 9223372036854775807, V = 1\<rparr>]\<rparr>)]
   \<and> map_option (current \<circ> snd) (Nexts parse_example 2 overflow_example)
       = Some (- 9223372036854775808)
   \<and> \<not> (9223372036854775807 :: int64) \<le>s - 9223372036854775808"
  by (simp add: Nexts_numeral overflow_example_def newRangeVectorIterator_def Next_def popBack_def
        popBack_fp_def putSeries_def load.simps load_body_def iter_Peek_def iter_Next_def
        load_append_def load_fresh_def getSeries_def parse_example_def Let_def
        word_sle_eq word_sless_alt)


lemma scenario_two_calls:
  "Nexts parse_example (Suc 1) scenario = Some (replicate (Suc 1) True, scenario_second)"
  by (simp add: scenario_def scenario_second_def newRangeVectorIterator_def Next_def popBack_def
        popBack_fp_def putSeries_def load.simps load_body_def iter_Peek_def iter_Next_def
        load_append_def load_fresh_def getSeries_def parse_example_def Let_def
        word_sle_eq word_sless_alt)

theorem window_invariant_witness:
  "(1 :: int64) \<le>s 5
   \<and> sorted_wrt (\<lambda>a b. TimestampNano a \<le>s TimestampNano b) (pending (iter scenario))
   \<and> sint (10 :: int64) + sint (5 :: int64) < 2 ^ 63
   \<and> Nexts parse_example (Suc 1) scenario = Some (replicate (Suc 1) True, scenario_second)
   \<and> list_all (\<lambda>e. list_all (\<lambda>p. current scenario_second - selRange scenario_second <s T p
                                    \<and> T p \<le>s current scenario_second) (Points (snd e)))
        (window scenario_second)"
proof -
  have a: "(1 :: int64) \<le>s 5" by (simp add: word_sle_eq)
  have b: "sorted_wrt (\<lambda>a b. TimestampNano a \<le>s TimestampNano b)
             (pending \<lparr>pending = [\<lparr>Labels = ''A'', TimestampNano = 0, Value = 1 :: real\<rparr>,
                   \<lparr>Labels = ''A'', TimestampNano = 3, Value = 2\<rparr>,
                   \<lparr>Labels = ''A'', TimestampNano = 11, Value = 3\<rparr>], nexts = 0\<rparr>)"
    by (simp add: word_sle_eq)
  have c: "sint (10 :: int64) + sint (5 :: int64) < 2 ^ 63" by simp
  note d = scenario_two_calls [unfolded scenario_def]
  from window_invariant [OF a b c d]
  have "\<forall>(fp, s) \<in> set (window scenario_second). \<forall>p \<in> set (Points s).
            current scenario_second - selRange scenario_second <s T p
            \<and> T p \<le>s current scenario_second"
    by blast
  then have "list_all (\<lambda>e. list_all (\<lambda>p. current scenario_second - selRange scenario_second <s T p
                                    \<and> T p \<le>s current scenario_second) (Points (snd e)))
        (window scenario_second)"
    by (simp add: list_all_iff split_def)
  moreover have "sorted_wrt (\<lambda>a b. TimestampNano a \<le>s TimestampNano b) (pending (iter scenario))"
    using b by (simp add: scenario_def newRangeVectorIterator_def)
  ultimately show ?thesis using a c scenario_two_calls by blast
qed

lemma Nexts_True_pending:
  "1 \<le>s step r0 \<Longrightarrow> sint (end' r0) + sint (step r0) < 2 ^ 63 \<Longrightarrow>
   Nexts parse (Suc n) r0 = Some (replicate (Suc n) True, r) \<Longrightarrow>
   pending (iter r) = dropWhile (\<lambda>s. TimestampNano s \<le>s current r) (pending (iter r0))
   \<and> (current r0 \<le>s end' r0 \<longrightarrow> current r0 \<le>s current r)"
proof (induction n arbitrary: r0)
  case 0
  then have n: "Next parse r0 = Some (True, r)" by (auto split: option.splits)
  note F = Next_True_frame [OF n]
  have "current r0 \<le>s current r" if "current r0 \<le>s end' r0"
  proof -
    from that "0.prems"(2) have "sint (current r0) + sint (step r0) < 2 ^ 63"
      by (simp add: word_sle_eq)
    from sint_add_no_overflow [OF "0.prems"(1) this] "0.prems"(1)
    show ?thesis by (simp add: F(1) word_sle_eq)
  qed
  with F(6) show ?case by simp
next
  case (Suc n)
  from Suc.prems(3) obtain r1 where
    a: "Next parse r0 = Some (True, r1)"
    and b: "Nexts parse (Suc n) r1 = Some (replicate (Suc n) True, r)"
    by (auto simp only: replicate_Suc Nexts_Suc_Some)
  note F = Next_True_frame [OF a]
  have s1: "1 \<le>s step r1" and e1: "sint (end' r1) + sint (step r1) < 2 ^ 63"
    using Suc.prems(1,2) by (simp_all add: F(2,4))
  from Suc.IH [OF s1 e1 b] F(5)
  have ih: "pending (iter r) = dropWhile (\<lambda>s. TimestampNano s \<le>s current r) (pending (iter r1))"
    and mono: "current r1 \<le>s current r" by simp_all
  have "dropWhile (\<lambda>s. TimestampNano s \<le>s current r)
          (dropWhile (\<lambda>s. TimestampNano s \<le>s current r1) (pending (iter r0)))
        = dropWhile (\<lambda>s. TimestampNano s \<le>s current r) (pending (iter r0))"
    using mono by (intro dropWhile_dropWhile_weaker) (simp add: word_sle_eq)
  then have p: "pending (iter r)
        = dropWhile (\<lambda>s. TimestampNano s \<le>s current r) (pending (iter r0))"
    by (simp add: ih F(6))
  have "current r0 \<le>s current r" if "current r0 \<le>s end' r0"
  proof -
    from that Suc.prems(2) have "sint (current r0) + sint (step r0) < 2 ^ 63"
      by (simp add: word_sle_eq)
    from sint_add_no_overflow [OF Suc.prems(1) this] Suc.prems(1)
    have "current r0 \<le>s current r1" by (simp add: F(1) word_sle_eq)
    with mono show ?thesis by (simp add: word_sle_eq)
  qed
  with p show ?case by simp
qed

text \<open>
  Claim C2, as amended. After any sequence of \<^verbatim>\<open>Next\<close> calls the samples consumed so far
  are a prefix of the source and the source has seen exactly one \<^verbatim>\<open>Next\<close> per sample of
  that prefix: no sample is consumed twice and none before the last consumed one is
  skipped. After an unbroken run of successful calls (step at least 1, \<open>end + step\<close> within
  \<^verbatim>\<open>int64\<close>) the prefix is the longest one whose samples have \<open>T \<le> current\<close>; a call that
  returns false consumes nothing. So the samples from the first one later than the last
  window position on are never consumed.
\<close>

theorem source_consumed_once:
  "(\<forall>bs r. Nexts parse n r0 = Some (bs, r) \<longrightarrow>
      (\<exists>consumed. pending (iter r0) = consumed @ pending (iter r)
         \<and> nexts (iter r) = nexts (iter r0) + length consumed))
   \<and> (\<forall>r. 1 \<le>s step r0 \<and> sint (end' r0) + sint (step r0) < 2 ^ 63
          \<and> Nexts parse (Suc m) r0 = Some (replicate (Suc m) True, r) \<longrightarrow>
        pending (iter r)
          = dropWhile (\<lambda>s. TimestampNano s \<le>s current r) (pending (iter r0))
        \<and> nexts (iter r) = nexts (iter r0)
            + length (takeWhile (\<lambda>s. TimestampNano s \<le>s current r) (pending (iter r0))))
   \<and> (\<forall>r r'. Next parse r = Some (False, r') \<longrightarrow> iter r' = iter r)"
proof (intro conjI allI impI)
  fix bs r
  assume "Nexts parse n r0 = Some (bs, r)"
  then show "\<exists>consumed. pending (iter r0) = consumed @ pending (iter r)
         \<and> nexts (iter r) = nexts (iter r0) + length consumed"
    by (rule Nexts_consumes_prefix)
next
  fix r
  assume a: "1 \<le>s step r0 \<and> sint (end' r0) + sint (step r0) < 2 ^ 63
          \<and> Nexts parse (Suc m) r0 = Some (replicate (Suc m) True, r)"
  let ?P = "\<lambda>s. TimestampNano s \<le>s current r"
  from a Nexts_True_pending [of r0 parse m r]
  have p: "pending (iter r) = dropWhile ?P (pending (iter r0))" by blast
  from a Nexts_consumes_prefix [of parse "Suc m" r0 "replicate (Suc m) True" r]
  obtain consumed where c: "pending (iter r0) = consumed @ pending (iter r)"
    "nexts (iter r) = nexts (iter r0) + length consumed" by blast
  have "consumed = takeWhile ?P (pending (iter r0))"
    using c(1) p by (metis append_same_eq takeWhile_dropWhile_id)
  with c(2) have q: "nexts (iter r) = nexts (iter r0) + length (takeWhile ?P (pending (iter r0)))"
    by simp
  from p show "pending (iter r) = dropWhile ?P (pending (iter r0))" .
  from q show "nexts (iter r) = nexts (iter r0) + length (takeWhile ?P (pending (iter r0)))" .
next
  fix r r'
  assume "Next parse r = Some (False, r')"
  then show "iter r' = iter r" using Next_Some_False [of parse r r'] by simp
qed

theorem source_consumed_once_counterexample:
  "sorted_wrt (\<lambda>a b. TimestampNano a \<le>s TimestampNano b) (pending (iter scenario))
   \<and> length (pending (iter scenario)) = 3
   \<and> nexts (iter scenario) = 0
   \<and> map_option fst (Nexts parse_example 4 scenario) = Some [True, True, True, False]
   \<and> map_option (nexts \<circ> iter \<circ> snd) (Nexts parse_example 4 scenario) = Some 2
   \<and> map_option (pending \<circ> iter \<circ> snd) (Nexts parse_example 4 scenario)
       = Some [\<lparr>Labels = ''A'', TimestampNano = 11, Value = 3\<rparr>]"
  by (simp add: Nexts_numeral scenario_def newRangeVectorIterator_def Next_def popBack_def
        popBack_fp_def putSeries_def load.simps load_body_def iter_Peek_def iter_Next_def
        load_append_def load_fresh_def getSeries_def parse_example_def Let_def
        word_sle_eq word_sless_alt)

theorem source_consumed_once_witness:
  "Nexts parse_example (Suc 1) scenario = Some (replicate (Suc 1) True, scenario_second)
   \<and> (1 :: int64) \<le>s step scenario
   \<and> sint (end' scenario) + sint (step scenario) < 2 ^ 63
   \<and> pending (iter scenario)
       = [\<lparr>Labels = ''A'', TimestampNano = 0, Value = 1\<rparr>,
          \<lparr>Labels = ''A'', TimestampNano = 3, Value = 2\<rparr>] @ pending (iter scenario_second)
   \<and> pending (iter scenario_second)
       = dropWhile (\<lambda>s. TimestampNano s \<le>s current scenario_second) (pending (iter scenario))
   \<and> nexts (iter scenario_second) = nexts (iter scenario) + 2"
proof -
  have h: "(1 :: int64) \<le>s step scenario \<and> sint (end' scenario) + sint (step scenario) < 2 ^ 63"
    by (simp add: scenario_def newRangeVectorIterator_def word_sle_eq)
  from source_consumed_once [of parse_example "Suc 1" scenario 1] h scenario_two_calls
  have "pending (iter scenario_second)
       = dropWhile (\<lambda>s. TimestampNano s \<le>s current scenario_second) (pending (iter scenario))"
    by blast
  moreover have "pending (iter scenario)
       = [\<lparr>Labels = ''A'', TimestampNano = 0, Value = 1\<rparr>,
          \<lparr>Labels = ''A'', TimestampNano = 3, Value = 2\<rparr>] @ pending (iter scenario_second)"
    "nexts (iter scenario_second) = nexts (iter scenario) + 2"
    by (simp_all add: scenario_def scenario_second_def newRangeVectorIterator_def)
  ultimately show ?thesis using h scenario_two_calls by blast
qed

end
